theory Spec2Isabelle
  imports Complex_Main "HOL-Library.Log_Nat"
begin

section \<open>Python floats\<close>

text \<open>
  A Python \<open>float\<close> is an IEEE 754 binary64 number. A finite one is modelled by its exact
  value, a rational; every operation computes the exact result and rounds it to the
  nearest binary64 value, ties to the even significand (\<open>fl\<close>). Subnormal numbers are
  covered by the lower bound on the exponent; infinities and NaN are not modelled.
\<close>

type_synonym pyfloat = rat

definition round_half_even :: "rat \<Rightarrow> int" where
  "round_half_even x =
     (let f = \<lfloor>x\<rfloor>; r = x - of_int f
      in if r < 1 / 2 then f
         else if 1 / 2 < r then f + 1
         else if even f then f else f + 1)"

text \<open>\<open>expo x\<close> is the binary exponent of \<open>x \<noteq> 0\<close>: \<open>2 powi expo x \<le> \<bar>x\<bar> < 2 powi (expo x + 1)\<close>.\<close>

definition expo :: "rat \<Rightarrow> int" where
  "expo x =
     (let (p, q) = quotient_of \<bar>x\<bar>;
          d = int (floorlog 2 (nat p)) - int (floorlog 2 (nat q))
      in if 2 powi d \<le> \<bar>x\<bar> then d else d - 1)"

definition ulp :: "rat \<Rightarrow> rat" where
  "ulp x = 2 powi (max (expo x) (- 1022) - 52)"

definition fl :: "rat \<Rightarrow> pyfloat" where
  "fl x = (if x = 0 then 0 else of_int (round_half_even (x / ulp x)) * ulp x)"

text \<open>The float subtraction \<open>a - b\<close>.\<close>

definition py_sub :: "pyfloat \<Rightarrow> pyfloat \<Rightarrow> pyfloat" where
  "py_sub a b = fl (a - b)"

text \<open>
  \<open>round(x, ndigits)\<close> on a float: the exact value of \<open>x\<close> is rounded to \<open>ndigits\<close>
  decimals, ties to even, and the decimal result is converted back to the nearest float.
\<close>

definition py_round :: "pyfloat \<Rightarrow> nat \<Rightarrow> pyfloat" where
  "py_round x ndigits = fl (of_int (round_half_even (x * 10 ^ ndigits)) / 10 ^ ndigits)"


section \<open>The catalog\<close>

text \<open>
  A row of \<open>processed_movies.csv\<close> as \<open>pandas.read_csv\<close> loads it; an empty text field
  is read as NaN, here \<open>None\<close>.
\<close>

record movie_row =
  movieId :: int
  title :: "string option"
  clean_title :: "string option"
  year :: "string option"
  genres_clean :: "string option"
  tags :: "string option"
  soup :: "string option"


section \<open>The Vector Store\<close>

datatype error = ValidationError | IndexError

type_synonym vector = "pyfloat list"

text \<open>A metadata mapping is a Python \<open>dict\<close> from field name to text, in insertion order.\<close>

type_synonym metadata = "(string \<times> string) list"

record index_entry =
  vector :: vector
  document :: string
  metadata :: metadata

text \<open>The store holds at most one entry per id; entries stay in the order of first insertion.\<close>

type_synonym store = "(string \<times> index_entry) list"

text \<open>
  The engine keeps its vectors in the persistent collection of an external vector database;
  \<open>engine.py\<close> only calls its \<open>count\<close>, \<open>upsert\<close> and \<open>query\<close>. The three
  operations are therefore modelled from the contract that section 4.2 of the
  specification gives for the Vector Store.
\<close>

text \<open>
  Modelled from the spec: \<open>count\<close> of the Vector Store, missing from the sources, is the
  number of distinct ids currently stored.
\<close>

definition count :: "store \<Rightarrow> nat" where
  "count s = length s"

text \<open>
  Modelled from the spec: \<open>upsert\<close> of the Vector Store, missing from the sources, takes
  four sequences of equal length and creates the entry of each \<open>ids[i]\<close> if it is absent
  or replaces its vector, document and metadata if it is present; sequences of unequal
  length are rejected with a \<open>ValidationError\<close> before any write is attempted.
\<close>

fun put :: "string \<Rightarrow> index_entry \<Rightarrow> store \<Rightarrow> store" where
  "put i e [] = [(i, e)]"
| "put i e ((j, x) # s) = (if j = i then (i, e) # s else (j, x) # put i e s)"

definition put_all :: "(string \<times> index_entry) list \<Rightarrow> store \<Rightarrow> store" where
  "put_all kvs s = fold (\<lambda>(i, e). put i e) kvs s"

definition entries ::
  "vector list \<Rightarrow> string list \<Rightarrow> metadata list \<Rightarrow> index_entry list" where
  "entries embeddings documents metas =
     map (\<lambda>(v, d, m). \<lparr>vector = v, document = d, metadata = m\<rparr>)
       (zip embeddings (zip documents metas))"

definition upsert ::
  "store \<Rightarrow> string list \<Rightarrow> vector list \<Rightarrow> string list \<Rightarrow> metadata list
     \<Rightarrow> error option \<times> store" where
  "upsert s ids embeddings documents metas =
     (if length embeddings = length ids \<and> length documents = length ids
         \<and> length metas = length ids
      then (None, put_all (zip ids (entries embeddings documents metas)) s)
      else (Some ValidationError, s))"

text \<open>
  Modelled from the spec: \<open>query\<close> of the Vector Store, missing from the sources,
  answers each query vector with at most \<open>k\<close> entries, ordered by increasing distance
  (nearest first) under the metric fixed when the store was created. The metric (cosine
  distance) is a parameter of the model.
\<close>

definition nearest ::
  "(vector \<Rightarrow> vector \<Rightarrow> pyfloat) \<Rightarrow> store \<Rightarrow> vector \<Rightarrow> int \<Rightarrow> (metadata \<times> pyfloat) list" where
  "nearest metric s v k =
     take (nat k) (sort_key snd (map (\<lambda>(i, e). (metadata e, metric v (vector e))) s))"

text \<open>The answer to a query holds one list of metadata and one of distances per query vector.\<close>

record query_results =
  metadatas :: "metadata list list"
  distances :: "pyfloat list list"

definition query ::
  "(vector \<Rightarrow> vector \<Rightarrow> pyfloat) \<Rightarrow> store \<Rightarrow> vector list \<Rightarrow> int \<Rightarrow> query_results \<times> store" where
  "query metric s query_embeddings n_results =
     (let hits = map (\<lambda>v. nearest metric s v n_results) query_embeddings
      in (\<lparr>metadatas = map (map fst) hits, distances = map (map snd) hits\<rparr>, s))"


section \<open>Retrieval: \<open>SemanticEngine.recommend\<close>\<close>

record query_result =
  title :: string
  year :: string
  genres :: string
  tags :: string
  score :: pyfloat
  distance :: pyfloat

text \<open>\<open>meta.get(key, default)\<close>.\<close>

definition dict_get :: "metadata \<Rightarrow> string \<Rightarrow> string \<Rightarrow> string" where
  "dict_get meta k dflt = (case map_of meta k of Some v \<Rightarrow> v | None \<Rightarrow> dflt)"

definition recommendation :: "metadata \<times> pyfloat \<Rightarrow> query_result" where
  "recommendation hit =
     (let meta = fst hit; dist = snd hit;
          score = py_round (py_sub 1 dist) 4
      in \<lparr>title = dict_get meta ''title'' ''N/A'',
          year = dict_get meta ''year'' ''N/A'',
          genres = dict_get meta ''genres_clean'' ''N/A'',
          tags = dict_get meta ''tags'' [],
          score = score,
          distance = py_round dist 4\<rparr>)"

text \<open>
  \<open>recommend\<close> encodes the query as a batch of one text, queries the store and reads the
  hits of the first query vector; \<open>results[...][0]\<close> raises \<open>IndexError\<close> on an empty
  answer. The embedder's \<open>encode\<close> and the store's metric are parameters. The function
  returns its result together with the store it leaves behind.
\<close>

definition recommend ::
  "(string list \<Rightarrow> vector list) \<Rightarrow> (vector \<Rightarrow> vector \<Rightarrow> pyfloat) \<Rightarrow> store \<Rightarrow> string \<Rightarrow> int
     \<Rightarrow> (error + query_result list) \<times> store" where
  "recommend encode metric s q n_results =
     (let query_vec = encode [q];
          (results, s') = query metric s query_vec n_results
      in case (metadatas results, distances results) of
           (ms # _, ds # _) \<Rightarrow> (Inr (map recommendation (zip ms ds)), s')
         | _ \<Rightarrow> (Inl IndexError, s'))"


section \<open>Indexing: \<open>SemanticEngine.index\<close>\<close>

definition fillna :: "string option \<Rightarrow> string" where
  "fillna c = (case c of None \<Rightarrow> [] | Some t \<Rightarrow> t)"

text \<open>\<open>str\<close> of an integer, for \<open>batch["movieId"].astype(str)\<close>.\<close>

fun str_nat :: "nat \<Rightarrow> string" where
  "str_nat n =
     (if n < 10 then [''0123456789'' ! n]
      else str_nat (n div 10) @ [''0123456789'' ! (n mod 10)])"

declare str_nat.simps [simp del]

definition str_int :: "int \<Rightarrow> string" where
  "str_int i = (if i < 0 then CHR ''-'' # str_nat (nat (- i)) else str_nat (nat i))"

definition BATCH_SIZE :: nat where
  "BATCH_SIZE = 512"

text \<open>\<open>a / b\<close> on two integers is the quotient rounded to the nearest float.\<close>

definition py_truediv :: "int \<Rightarrow> int \<Rightarrow> pyfloat" where
  "py_truediv a b = fl (of_int a / of_int b)"

text \<open>\<open>math.ceil(total / BATCH_SIZE)\<close>, for \<open>total\<close> rows.\<close>

definition n_batch :: "nat \<Rightarrow> nat" where
  "n_batch n_rows = nat \<lceil>py_truediv (int n_rows) (int BATCH_SIZE)\<rceil>"

text \<open>\<open>df.iloc[a:b]\<close> for \<open>0 \<le> a \<le> b\<close>.\<close>

definition iloc :: "'a list \<Rightarrow> nat \<Rightarrow> nat \<Rightarrow> 'a list" where
  "iloc df a b = take (b - a) (drop a df)"

definition row_metadata :: "movie_row \<Rightarrow> metadata" where
  "row_metadata r =
     [(''title'', fillna (movie_row.title r)),
      (''clean_title'', fillna (clean_title r)),
      (''year'', fillna (movie_row.year r)),
      (''genres_clean'', fillna (genres_clean r)),
      (''tags'', fillna (movie_row.tags r))]"

text \<open>
  One pass of the loop body for batch number \<open>i\<close>: the four sequences handed to
  \<open>upsert\<close>.
\<close>

definition batch_call ::
  "(string list \<Rightarrow> vector list) \<Rightarrow> movie_row list
     \<Rightarrow> string list \<times> vector list \<times> string list \<times> metadata list" where
  "batch_call encode batch =
     (let soups = map (\<lambda>r. fillna (soup r)) batch;
          ids = map (\<lambda>r. str_int (movieId r)) batch;
          metas = map row_metadata batch;
          embeddings = encode soups
      in (ids, embeddings, soups, metas))"

text \<open>
  The loop over \<open>range(n_batch)\<close>. An exception raised by \<open>upsert\<close> ends the run and
  leaves the store as the batches before it made it.
\<close>

fun index_loop ::
  "(string list \<Rightarrow> vector list) \<Rightarrow> movie_row list \<Rightarrow> nat list \<Rightarrow> store
     \<Rightarrow> error option \<times> store" where
  "index_loop encode df [] s = (None, s)"
| "index_loop encode df (i # js) s =
     (let batch = iloc df (i * BATCH_SIZE) ((i + 1) * BATCH_SIZE);
          (ids, embeddings, soups, metas) = batch_call encode batch
      in case upsert s ids embeddings soups metas of
           (Some e, s') \<Rightarrow> (Some e, s')
         | (None, s') \<Rightarrow> index_loop encode df js s')"

text \<open>
  \<open>index(force)\<close>; the rows \<open>df\<close> of the processed file, the embedder's \<open>encode\<close> and
  the store are parameters.
\<close>

definition index ::
  "(string list \<Rightarrow> vector list) \<Rightarrow> movie_row list \<Rightarrow> bool \<Rightarrow> store \<Rightarrow> error option \<times> store" where
  "index encode df force s =
     (let existing = count s
      in if existing > 0 \<and> \<not> force then (None, s)
         else let n_rows = length df
              in index_loop encode df [0..<n_batch n_rows] s)"








section \<open>Collection stats: \<open>SemanticEngine.stats\<close>\<close>






section \<open>Title helpers of the ETL step: \<open>clean_title\<close> and \<open>extract_year\<close>\<close>

text \<open>
  Isabelle characters are the code points below 256. On these, \<open>\s\<close> and \<open>str.strip\<close>
  agree on the whitespace characters, and \<open>\d\<close> matches the ten ASCII digits.
\<close>

definition isspace :: "char \<Rightarrow> bool" where
  "isspace c = (of_char c \<in> {9, 10, 11, 12, 13, 28, 29, 30, 31, 32, 133, 160 :: nat})"

definition isdigit :: "char \<Rightarrow> bool" where
  "isdigit c = (48 \<le> (of_char c :: nat) \<and> (of_char c :: nat) \<le> 57)"

text \<open>\<open>$\<close> matches at the end of the string and just before a newline that ends it.\<close>

definition at_end :: "string \<Rightarrow> bool" where
  "at_end rest = (rest = [] \<or> rest = [CHR 0x0A])"

text \<open>
  \<open>\s*$\<close> at the start of \<open>rest\<close>: the star is greedy and gives characters back one at
  a time until \<open>$\<close> matches. The result is the number of characters consumed.
\<close>

fun ws_then_end :: "string \<Rightarrow> nat option" where
  "ws_then_end [] = Some 0"
| "ws_then_end (c # cs) =
     (case (if isspace c then ws_then_end cs else None) of
        Some k \<Rightarrow> Some (Suc k)
      | None \<Rightarrow> if at_end (c # cs) then Some 0 else None)"

text \<open>
  The pattern \<open>\((\d{4})\)\s*$\<close> matched at the start of a string: group 1 and the
  length of the match.
\<close>

fun match_year :: "string \<Rightarrow> (string \<times> nat) option" where
  "match_year (p # d1 # d2 # d3 # d4 # r # rest) =
     (if p = CHR ''('' \<and> isdigit d1 \<and> isdigit d2 \<and> isdigit d3 \<and> isdigit d4 \<and> r = CHR '')''
      then (case ws_then_end rest of
              Some k \<Rightarrow> Some ([d1, d2, d3, d4], 6 + k)
            | None \<Rightarrow> None)
      else None)"
| "match_year _ = None"

text \<open>\<open>re.search\<close>: group 1 of the leftmost match.\<close>

fun re_search :: "string \<Rightarrow> string option" where
  "re_search [] = None"
| "re_search (c # cs) =
     (case match_year (c # cs) of
        Some (g, _) \<Rightarrow> Some g
      | None \<Rightarrow> re_search cs)"

text \<open>
  \<open>re.sub\<close> with the empty replacement: every match, found from left to right, is
  removed. The first argument counts the characters of the current match still to skip.
\<close>

fun re_sub :: "nat \<Rightarrow> string \<Rightarrow> string" where
  "re_sub _ [] = []"
| "re_sub (Suc k) (c # cs) = re_sub k cs"
| "re_sub 0 (c # cs) =
     (case match_year (c # cs) of
        Some (_, n) \<Rightarrow> re_sub (n - 1) cs
      | None \<Rightarrow> c # re_sub 0 cs)"

definition strip :: "string \<Rightarrow> string" where
  "strip t = rev (dropWhile isspace (rev (dropWhile isspace t)))"

text \<open>\<open>clean_title\<close> (the name \<open>clean_title\<close> itself is the column of the catalog).\<close>

definition clean_title_of :: "string \<Rightarrow> string" where
  "clean_title_of t = strip (re_sub 0 t)"

definition extract_year :: "string \<Rightarrow> string" where
  "extract_year t = (case re_search t of Some g \<Rightarrow> g | None \<Rightarrow> ''Unknown'')"

text \<open>
  The title \<open>t\<close> ends with a parenthesized 4-digit year followed by optional
  whitespace: \<open>t\<close> is \<open>pre\<close>, then \<open>(\<close>, the four digits \<open>ds\<close>, \<open>)\<close> and the
  whitespace \<open>ws\<close>.
\<close>

definition year_suffix :: "string \<Rightarrow> string \<Rightarrow> string \<Rightarrow> string \<Rightarrow> bool" where
  "year_suffix t pre ds ws \<longleftrightarrow>
     t = pre @ CHR ''('' # ds @ CHR '')'' # ws
     \<and> length ds = 4 \<and> list_all isdigit ds \<and> list_all isspace ws"


section \<open>Rounding to the nearest integer and to the nearest float\<close>

lemma rhe_of_int: "round_half_even (of_int n) = n"
  by (simp add: round_half_even_def)

lemma rhe_floor_cases:
  "round_half_even x = \<lfloor>x\<rfloor> \<or> round_half_even x = \<lfloor>x\<rfloor> + 1"
  by (simp add: round_half_even_def Let_def)


lemma rhe_mono:
  assumes "x \<le> y"
  shows "round_half_even x \<le> round_half_even y"
proof (cases "\<lfloor>x\<rfloor> = \<lfloor>y\<rfloor>")
  case True
  with assms show ?thesis
    unfolding round_half_even_def Let_def by auto
next
  case False
  with assms have "\<lfloor>x\<rfloor> < \<lfloor>y\<rfloor>"
    by (simp add: floor_mono order.strict_iff_order)
  moreover have "round_half_even x \<le> \<lfloor>x\<rfloor> + 1"
    using rhe_floor_cases [of x] by auto
  moreover have "\<lfloor>y\<rfloor> \<le> round_half_even y"
    using rhe_floor_cases [of y] by auto
  ultimately show ?thesis by linarith
qed

lemma rhe_minus: "round_half_even (- x) = - round_half_even x"
proof (cases "x \<in> \<int>")
  case True
  then obtain n where "x = of_int n" by (auto elim: Ints_cases)
  then show ?thesis
    using rhe_of_int [of n] rhe_of_int [of "- n"] by simp
next
  case False
  have "x \<noteq> of_int \<lfloor>x\<rfloor>"
    using False Ints_of_int by metis
  then have fr: "of_int \<lfloor>x\<rfloor> < x"
    using of_int_floor_le [of x] by linarith
  have up: "x < of_int \<lfloor>x\<rfloor> + 1" by linarith
  have fl: "\<lfloor>- x\<rfloor> = - \<lfloor>x\<rfloor> - 1"
    by (rule floor_unique) (use fr up in simp_all)
  show ?thesis
    unfolding round_half_even_def Let_def fl using fr up
    by (auto simp: algebra_simps)
qed




lemma powi_nat_div:
  "(2::rat) ^ a / 2 ^ b = 2 powi (int a - int b)"
  by (simp add: power_int_diff)

lemma expo_candidates:
  assumes "x \<noteq> 0"
  defines "d \<equiv> int (floorlog 2 (nat (fst (quotient_of \<bar>x\<bar>))))
                 - int (floorlog 2 (nat (snd (quotient_of \<bar>x\<bar>))))"
  shows "2 powi (d - 1) < \<bar>x\<bar>" and "\<bar>x\<bar> < 2 powi (d + 1)"
proof -
  obtain p q where pq: "quotient_of \<bar>x\<bar> = (p, q)" by force
  have q: "0 < q" using quotient_of_denom_pos [OF pq] .
  have x: "\<bar>x\<bar> = of_int p / of_int q" using quotient_of_div [OF pq] .
  have "0 < \<bar>x\<bar>" using assms(1) by simp
  with x q have p: "0 < p" by (simp add: zero_less_divide_iff)
  define bp where "bp = floorlog 2 (nat p)"
  define bq where "bq = floorlog 2 (nat q)"
  have d: "d = int bp - int bq" by (simp add: d_def pq bp_def bq_def)
  from floorlog_bounds [of "nat p" 2] p
  have "2 ^ (bp - 1) \<le> nat p" "nat p < 2 ^ bp" by (simp_all add: bp_def)
  then have "int (2 ^ (bp - 1)) \<le> p" "p < int (2 ^ bp)" using p by linarith+
  then have P: "(2::rat) ^ (bp - 1) \<le> of_int p" "of_int p < (2::rat) ^ bp"
    by (metis of_int_le_iff of_int_of_nat_eq of_nat_numeral of_nat_power,
        metis of_int_less_iff of_int_of_nat_eq of_nat_numeral of_nat_power)
  from floorlog_bounds [of "nat q" 2] q
  have "2 ^ (bq - 1) \<le> nat q" "nat q < 2 ^ bq" by (simp_all add: bq_def)
  then have "int (2 ^ (bq - 1)) \<le> q" "q < int (2 ^ bq)" using q by linarith+
  then have Q: "(2::rat) ^ (bq - 1) \<le> of_int q" "of_int q < (2::rat) ^ bq"
    by (metis of_int_le_iff of_int_of_nat_eq of_nat_numeral of_nat_power,
        metis of_int_less_iff of_int_of_nat_eq of_nat_numeral of_nat_power)
  have bp1: "1 \<le> bp" using p by (simp add: bp_def floorlog_def)
  have bq1: "1 \<le> bq" using q by (simp add: bq_def floorlog_def)
  have qpos: "(0::rat) < of_int q" using q by simp
  have ppos: "(0::rat) < of_int p" using p by simp
  have "\<bar>x\<bar> < 2 ^ bp / of_int q"
    unfolding x using P(2) qpos by (simp add: divide_strict_right_mono)
  also have "\<dots> \<le> 2 ^ bp / 2 ^ (bq - 1)"
    using Q(1) qpos by (simp add: frac_le)
  also have "\<dots> = 2 powi (d + 1)"
    unfolding powi_nat_div d using bq1 by (simp add: of_nat_diff algebra_simps)
  finally show "\<bar>x\<bar> < 2 powi (d + 1)" .
  have "2 powi (d - 1) = (2::rat) ^ (bp - 1) / 2 ^ bq"
    unfolding powi_nat_div d using bp1 by (simp add: of_nat_diff algebra_simps)
  also have "\<dots> < 2 ^ (bp - 1) / of_int q"
    using Q(2) qpos by (simp add: divide_strict_left_mono)
  also have "\<dots> \<le> \<bar>x\<bar>"
    unfolding x using P(1) qpos by (simp add: divide_right_mono)
  finally show "2 powi (d - 1) < \<bar>x\<bar>" .
qed

lemma expo_bounds:
  assumes "x \<noteq> 0"
  shows "2 powi expo x \<le> \<bar>x\<bar>" and "\<bar>x\<bar> < 2 powi (expo x + 1)"
proof -
  define d where "d = int (floorlog 2 (nat (fst (quotient_of \<bar>x\<bar>))))
                 - int (floorlog 2 (nat (snd (quotient_of \<bar>x\<bar>))))"
  have e: "expo x = (if 2 powi d \<le> \<bar>x\<bar> then d else d - 1)"
    by (simp add: expo_def d_def Let_def split_beta)
  from expo_candidates [OF assms] have c: "2 powi (d - 1) < \<bar>x\<bar>" "\<bar>x\<bar> < 2 powi (d + 1)"
    by (simp_all add: d_def)
  show "2 powi expo x \<le> \<bar>x\<bar>" using c(1) by (simp add: e)
  show "\<bar>x\<bar> < 2 powi (expo x + 1)" using c(2) by (auto simp add: e)
qed

lemma powi_less_imp:
  assumes "(2::rat) powi a < 2 powi b"
  shows "a < b"
proof (rule ccontr)
  assume "\<not> a < b"
  then have "b \<le> a" by simp
  then have "(2::rat) powi b \<le> 2 powi a" by (intro power_int_increasing) simp_all
  with assms show False by simp
qed



lemma powi_scale:
  assumes "int n + a = b"
  shows "of_int (2 ^ n) * (2::rat) powi a = 2 powi b"
proof -
  have "(2::rat) powi b = 2 powi int n * 2 powi a"
    unfolding assms [symmetric] by (rule power_int_add) simp
  then show ?thesis by simp
qed

lemma expo_minus: "expo (- x) = expo x"
  by (simp add: expo_def)

lemma ulp_minus: "ulp (- x) = ulp x"
  by (simp add: ulp_def expo_minus)

lemma ulp_pos: "0 < ulp x"
  by (simp add: ulp_def)

lemma fl_minus: "fl (- x) = - fl x"
  by (simp add: fl_def ulp_minus rhe_minus)

lemma fl_nonneg:
  assumes "0 \<le> x"
  shows "0 \<le> fl x"
proof -
  have "0 \<le> x / ulp x" using assms ulp_pos [of x] by simp
  then have "round_half_even 0 \<le> round_half_even (x / ulp x)" by (rule rhe_mono)
  then have "0 \<le> round_half_even (x / ulp x)" using rhe_of_int [of 0] by simp
  then show ?thesis using ulp_pos [of x] by (simp add: fl_def)
qed

text \<open>Rounding within a binade: a positive number stays between the powers of two around it.\<close>

lemma fl_binade:
  assumes "0 < x"
  defines "E \<equiv> max (expo x) (- 1022)"
  shows "fl x \<le> 2 powi (E + 1)" and "- 1022 \<le> expo x \<Longrightarrow> 2 powi expo x \<le> fl x"
proof -
  have x0: "x \<noteq> 0" using assms(1) by simp
  have u: "ulp x = 2 powi (E - 52)" by (simp add: ulp_def E_def)
  have up: "0 < ulp x" by (rule ulp_pos)
  have f: "fl x = of_int (round_half_even (x / ulp x)) * ulp x" using x0 by (simp add: fl_def)
  have "x < 2 powi (expo x + 1)" using expo_bounds(2) [OF x0] assms(1) by simp
  also have "\<dots> \<le> 2 powi (E + 1)" by (rule power_int_increasing) (simp_all add: E_def)
  finally have "x < 2 powi (E + 1)" .
  then have "x / ulp x \<le> 2 powi (E + 1) / ulp x" using up by (simp add: divide_right_mono)
  also have "\<dots> = 2 powi 53" unfolding u by (simp flip: power_int_diff)
  also have "\<dots> = of_int (2 ^ 53)" by simp
  finally have "round_half_even (x / ulp x) \<le> round_half_even (of_int (2 ^ 53))"
    by (rule rhe_mono)
  then have "round_half_even (x / ulp x) \<le> 2 ^ 53" by (simp only: rhe_of_int)
  then have "(of_int (round_half_even (x / ulp x)) :: rat) \<le> of_int (2 ^ 53)"
    by (simp only: of_int_le_iff)
  then have "fl x \<le> of_int (2 ^ 53) * ulp x" unfolding f using up by (simp only: mult_right_mono less_imp_le)
  also have "of_int (2 ^ 53) * ulp x = 2 powi (E + 1)"
    unfolding u by (rule powi_scale) simp
  finally show "fl x \<le> 2 powi (E + 1)" .
next
  assume n: "- 1022 \<le> expo x"
  have x0: "x \<noteq> 0" using assms(1) by simp
  have E: "E = expo x" using n by (simp add: E_def)
  have u: "ulp x = 2 powi (expo x - 52)" using n by (simp add: ulp_def max_def)
  have up: "0 < ulp x" by (rule ulp_pos)
  have f: "fl x = of_int (round_half_even (x / ulp x)) * ulp x" using x0 by (simp add: fl_def)
  have "2 powi expo x \<le> x" using expo_bounds(1) [OF x0] assms(1) by simp
  then have "2 powi expo x / ulp x \<le> x / ulp x" using up by (simp add: divide_right_mono)
  moreover have "2 powi expo x / ulp x = 2 powi 52" unfolding u by (simp flip: power_int_diff)
  moreover have "(2::rat) powi 52 = of_int (2 ^ 52)" by simp
  ultimately have "round_half_even (of_int (2 ^ 52)) \<le> round_half_even (x / ulp x)"
    by (intro rhe_mono) simp
  then have "2 ^ 52 \<le> round_half_even (x / ulp x)" by (simp only: rhe_of_int)
  then have "(of_int (2 ^ 52) :: rat) \<le> of_int (round_half_even (x / ulp x))"
    by (simp only: of_int_le_iff)
  then have "of_int (2 ^ 52) * ulp x \<le> fl x" unfolding f using up by (simp only: mult_right_mono less_imp_le)
  moreover have "of_int (2 ^ 52) * ulp x = 2 powi expo x"
    unfolding u by (rule powi_scale) simp
  ultimately show "2 powi expo x \<le> fl x" by simp
qed


lemma div_from_mult: "0 < u \<Longrightarrow> a = c * u \<Longrightarrow> a / u = (c::rat)"
  by simp

lemma expo_mono:
  assumes "x \<noteq> 0" and "\<bar>x\<bar> \<le> \<bar>y\<bar>"
  shows "expo x \<le> expo y"
proof -
  have y: "y \<noteq> 0" using assms by auto
  have "2 powi expo x \<le> \<bar>x\<bar>" by (rule expo_bounds(1) [OF assms(1)])
  also note assms(2)
  also have "\<bar>y\<bar> < 2 powi (expo y + 1)" by (rule expo_bounds(2) [OF y])
  finally have "expo x < expo y + 1" by (rule powi_less_imp)
  then show ?thesis by simp
qed

lemma fl_mono_pos:
  assumes "0 < x" and "x \<le> y"
  shows "fl x \<le> fl y"
proof -
  have x0: "x \<noteq> 0" and y0: "y \<noteq> 0" and ypos: "0 < y" using assms by auto
  have e: "expo x \<le> expo y" using assms by (intro expo_mono) auto
  define Ex where "Ex = max (expo x) (- 1022)"
  define Ey where "Ey = max (expo y) (- 1022)"
  have E: "Ex \<le> Ey" using e by (simp add: Ex_def Ey_def)
  show ?thesis
  proof (cases "Ex = Ey")
    case True
    then have u: "ulp x = ulp y" by (simp add: ulp_def Ex_def Ey_def)
    have "x / ulp y \<le> y / ulp y" using assms(2) ulp_pos [of y] by (simp add: divide_right_mono)
    then have "round_half_even (x / ulp y) \<le> round_half_even (y / ulp y)" by (rule rhe_mono)
    then have "(of_int (round_half_even (x / ulp y)) :: rat) \<le> of_int (round_half_even (y / ulp y))"
      by (simp only: of_int_le_iff)
    then have "of_int (round_half_even (x / ulp y)) * ulp y
                 \<le> of_int (round_half_even (y / ulp y)) * ulp y"
      using ulp_pos [of y] by (simp only: mult_right_mono less_imp_le)
    then show ?thesis using x0 y0 by (simp add: fl_def u)
  next
    case False
    with E have lt: "Ex < Ey" by simp
    then have n: "- 1022 \<le> expo y" and Ey: "Ey = expo y"
      by (auto simp add: Ex_def Ey_def max_def split: if_splits)
    have "fl x \<le> 2 powi (Ex + 1)" unfolding Ex_def by (rule fl_binade(1) [OF assms(1)])
    also have "\<dots> \<le> 2 powi expo y" using lt Ey by (intro power_int_increasing) simp_all
    also have "\<dots> \<le> fl y" by (rule fl_binade(2) [OF ypos n])
    finally show ?thesis .
  qed
qed

lemma fl_mono:
  assumes "x \<le> y"
  shows "fl x \<le> fl y"
proof -
  consider "0 < x" | "x \<le> 0" "0 \<le> y" | "y < 0" by linarith
  then show ?thesis
  proof cases
    case 1
    then show ?thesis using assms by (rule fl_mono_pos)
  next
    case 2
    have "0 \<le> fl (- x)" using 2(1) by (intro fl_nonneg) simp
    then have "fl x \<le> 0" by (simp add: fl_minus)
    moreover have "0 \<le> fl y" using 2(2) by (rule fl_nonneg)
    ultimately show ?thesis by simp
  next
    case 3
    have "fl (- y) \<le> fl (- x)" using 3 assms by (intro fl_mono_pos) simp_all
    then show ?thesis by (simp add: fl_minus)
  qed
qed

text \<open>A number with a significand below \<open>2 ^ 53\<close> and an exponent in range is a float.\<close>

lemma fl_exact:
  assumes x: "x = of_int k * 2 powi j" and k: "\<bar>k\<bar> < 2 ^ 53" and j: "- 1074 \<le> j"
  shows "fl x = x"
proof (cases "x = 0")
  case True
  then show ?thesis by (simp add: fl_def)
next
  case False
  define E where "E = max (expo x) (- 1022)"
  have u: "ulp x = 2 powi (E - 52)" by (simp add: ulp_def E_def)
  have le: "E - 52 \<le> j"
  proof (rule ccontr)
    assume "\<not> E - 52 \<le> j"
    then have jl: "j + 53 \<le> E" by simp
    with j have "E = expo x" by (simp add: E_def max_def split: if_splits)
    then have s4: "2 powi E \<le> \<bar>x\<bar>" using expo_bounds(1) [OF False] by simp
    define P where "P = (2::rat) powi j"
    define K where "K = (of_int \<bar>k\<bar> :: rat)"
    have Ppos: "0 < P" by (simp add: P_def)
    have "(of_int \<bar>k\<bar> :: rat) < of_int (2 ^ 53)" using k by (simp only: of_int_less_iff)
    then have "K < of_int (2 ^ 53)" by (simp only: K_def)
    then have s1: "K * P < of_int (2 ^ 53) * P" using Ppos by (rule mult_strict_right_mono)
    have s2: "of_int (2 ^ 53) * P = 2 powi (j + 53)" unfolding P_def by (rule powi_scale) simp
    have s3: "(2::rat) powi (j + 53) \<le> 2 powi E" using jl by (intro power_int_increasing) simp_all
    have s5: "\<bar>x\<bar> = K * P" by (simp add: x abs_mult K_def P_def)
    from s1 s2 s3 s4 s5 show False by linarith
  qed
  have "(2::rat) powi j = of_int (2 ^ nat (j - (E - 52))) * 2 powi (E - 52)"
    by (rule powi_scale [symmetric]) (use le in simp)
  then have "of_int k * (2::rat) powi j = of_int (k * 2 ^ nat (j - (E - 52))) * 2 powi (E - 52)"
    by simp
  then have "x = of_int (k * 2 ^ nat (j - (E - 52))) * ulp x"
    by (simp only: x [symmetric] u [symmetric])
  with ulp_pos [of x] have "x / ulp x = of_int (k * 2 ^ nat (j - (E - 52)))"
    by (rule div_from_mult)
  then have "of_int (round_half_even (x / ulp x)) = x / ulp x"
    by (simp only: rhe_of_int)
  then show ?thesis using False ulp_pos [of x] by (simp add: fl_def)
qed



lemma floor_numeral_div [simp]:
  "\<lfloor>numeral a / numeral b :: rat\<rfloor> = numeral a div numeral b"
  using floor_divide_of_int_eq [of "numeral a" "numeral b", where ?'a = rat] by simp

lemma floor_neg_numeral_div [simp]:
  "\<lfloor>- (numeral a / numeral b) :: rat\<rfloor> = - numeral a div numeral b"
  using floor_divide_of_int_eq [of "- numeral a" "numeral b", where ?'a = rat] by simp


lemma py_round_mono:
  assumes "x \<le> y"
  shows "py_round x n \<le> py_round y n"
proof -
  have "x * 10 ^ n \<le> y * 10 ^ n" using assms by (simp add: mult_right_mono)
  then have "round_half_even (x * 10 ^ n) \<le> round_half_even (y * 10 ^ n)" by (rule rhe_mono)
  then have "(of_int (round_half_even (x * 10 ^ n)) :: rat) / 10 ^ n
               \<le> of_int (round_half_even (y * 10 ^ n)) / 10 ^ n"
    by (simp add: divide_right_mono)
  then show ?thesis unfolding py_round_def by (rule fl_mono)
qed

lemma py_round_int: "py_round (of_int k) n = fl (of_int k)"
proof -
  have "(of_int k :: rat) * 10 ^ n = of_int (k * 10 ^ n)" by simp
  then have "round_half_even (of_int k * 10 ^ n) = k * 10 ^ n" by (simp only: rhe_of_int)
  then show ?thesis by (simp add: py_round_def)
qed

lemma fl_small_int:
  assumes "\<bar>k\<bar> < 2 ^ 53"
  shows "fl (of_int k) = of_int k"
  by (rule fl_exact [of _ k 0]) (use assms in simp_all)

lemma py_round_0: "py_round 0 n = 0"
  using py_round_int [of 0 n] fl_small_int [of 0] by simp

lemma py_round_1: "py_round 1 n = 1"
  using py_round_int [of 1 n] fl_small_int [of 1] by simp


lemma py_round_m1: "py_round (- 1) n = - 1"
  using py_round_int [of "- 1" n] fl_small_int [of "- 1"] by simp

lemma py_sub_mono: "b \<le> b' \<Longrightarrow> py_sub a b' \<le> py_sub a b"
  unfolding py_sub_def by (rule fl_mono) simp

lemma py_sub_1_0: "py_sub 1 0 = 1"
  using fl_small_int [of 1] by (simp add: py_sub_def)

lemma py_sub_1_1: "py_sub 1 1 = 0"
  by (simp add: py_sub_def fl_def)

lemma py_sub_1_2: "py_sub 1 2 = - 1"
  using fl_small_int [of "- 1"] by (simp add: py_sub_def)

text \<open>
  For a cosine distance \<open>d\<close> in \<open>[0, 2]\<close> the score lies in \<open>[-1, 1]\<close>; it is
  non-negative when \<open>d \<le> 1\<close>. The rounded distance stays in \<open>[0, 2]\<close>.
\<close>

lemma score_range:
  assumes "0 \<le> d" and "d \<le> 2"
  shows "- 1 \<le> py_round (py_sub 1 d) 4" and "py_round (py_sub 1 d) 4 \<le> 1"
proof -
  have "py_sub 1 2 \<le> py_sub 1 d" using assms(2) by (rule py_sub_mono)
  then have "py_round (py_sub 1 2) 4 \<le> py_round (py_sub 1 d) 4" by (rule py_round_mono)
  then show "- 1 \<le> py_round (py_sub 1 d) 4" by (simp add: py_sub_1_2 py_round_m1)
  have "py_sub 1 d \<le> py_sub 1 0" using assms(1) by (rule py_sub_mono)
  then have "py_round (py_sub 1 d) 4 \<le> py_round (py_sub 1 0) 4" by (rule py_round_mono)
  then show "py_round (py_sub 1 d) 4 \<le> 1" by (simp add: py_sub_1_0 py_round_1)
qed

lemma score_nonneg:
  assumes "d \<le> 1"
  shows "0 \<le> py_round (py_sub 1 d) 4"
proof -
  have "py_sub 1 1 \<le> py_sub 1 d" using assms by (rule py_sub_mono)
  then have "py_round (py_sub 1 1) 4 \<le> py_round (py_sub 1 d) 4" by (rule py_round_mono)
  then show ?thesis by (simp add: py_sub_1_1 py_round_0)
qed










section \<open>Retrieval: results\<close>

lemma recommend_encoded:
  "encode [q] = v # vs \<Longrightarrow>
   recommend encode metric s q n = (Inr (map recommendation (nearest metric s v n)), s)"
  by (simp add: recommend_def query_def zip_map_fst_snd)

lemma recommend_not_encoded:
  "encode [q] = [] \<Longrightarrow> recommend encode metric s q n = (Inl IndexError, s)"
  by (simp add: recommend_def query_def)

lemma recommend_Inr:
  assumes "recommend encode metric s q n = (Inr rs, s')"
  shows "\<exists>v vs. encode [q] = v # vs \<and> rs = map recommendation (nearest metric s v n)"
proof (cases "encode [q]")
  case Nil
  with assms show ?thesis by (simp add: recommend_not_encoded)
next
  case (Cons v vs)
  with assms show ?thesis by (auto simp add: recommend_encoded)
qed

lemma length_nearest: "length (nearest metric s v n) = min (nat n) (count s)"
  by (simp add: nearest_def count_def)


lemma recommendation_score [simp]:
  "score (recommendation hit) = py_round (py_sub 1 (snd hit)) 4"
  by (simp add: recommendation_def Let_def)

lemma recommendation_distance [simp]:
  "distance (recommendation hit) = py_round (snd hit) 4"
  by (simp add: recommendation_def Let_def)

lemma sorted_nearest: "sorted (map snd (nearest metric s v n))"
proof -
  have "sorted (map snd (sort_key snd (map (\<lambda>(i, e). (metadata e, metric v (vector e))) s)))"
    by (rule sorted_sort_key)
  then show ?thesis
    unfolding nearest_def take_map [symmetric] by (rule sorted_wrt_take)
qed

lemma sorted_map_mono:
  assumes "sorted (map f xs)" and "\<And>a b. a \<le> b \<Longrightarrow> g a \<le> g b"
  shows "sorted (map (\<lambda>x. g (f x)) xs)"
  using assms by (induction xs) auto


lemma fl_half_exact: "fl (- (1 / 2)) = - (1 / 2)" "fl (3 / 2) = 3 / 2"
  using fl_exact [of "- (1 / 2)" "- 1" "- 1"] fl_exact [of "3 / 2" 3 "- 1"] by simp_all

lemma score_3_2: "py_round (py_sub 1 (3 / 2)) 4 = - (1 / 2)"
  by (simp add: py_sub_def py_round_def fl_half_exact round_half_even_def Let_def)

lemma distance_3_2: "py_round (3 / 2) 4 = 3 / 2"
  by (simp add: py_round_def fl_half_exact round_half_even_def Let_def)

lemma distance_2m20: "py_round (1 / 1048576) 4 = 0"
  by (simp add: py_round_def round_half_even_def Let_def fl_def)

lemma score_2m20: "py_round (py_sub 1 (1 / 1048576)) 4 = 1"
proof -
  have "py_sub 1 (1 / 1048576) = 1048575 / 1048576"
    using fl_exact [of "1048575 / 1048576" 1048575 "- 20"] by (simp add: py_sub_def)
  then have "py_round (py_sub 1 (1 / 1048576)) 4 = py_round (1048575 / 1048576) 4"
    by (rule arg_cong)
  also have "\<dots> = 1"
    using fl_small_int [of 1] by (simp add: py_round_def round_half_even_def Let_def)
  finally show ?thesis .
qed



text \<open>
  C9: \<open>recommend\<close> never mutates the Vector Store. Whatever the query text, the number of
  results asked for, the embedder and the metric, and whether the call returns results or
  raises, the store left behind by \<open>recommend\<close> is the store it was given: the same
  entries with the same vectors, documents and metadata, hence the same \<open>count\<close>.
\<close>

theorem recommend_leaves_store:
  "snd (recommend encode metric s q n_results) = s
   \<and> count (snd (recommend encode metric s q n_results)) = count s"
  by (cases "encode [q]") (simp_all add: recommend_encoded recommend_not_encoded)


text \<open>
  C8: for every hit returned by the Vector Store, \<open>recommend\<close> copies the stored metadata
  into the named fields of the result at the same position: \<open>title\<close>, \<open>year\<close> and
  \<open>genres\<close> (stored under the key \<open>genres_clean\<close>) are the stored values, or \<open>N/A\<close>
  when the key is missing; \<open>tags\<close> is the stored value, or the empty string when the key
  is missing.
\<close>

theorem recommend_metadata_fallbacks:
  assumes "recommend encode metric s q n_results = (Inr rs, s')"
  shows "\<exists>v vs. encode [q] = v # vs
           \<and> length rs = length (nearest metric s v n_results)
           \<and> (\<forall>i < length rs.
                 let meta = fst (nearest metric s v n_results ! i); r = rs ! i
                 in (case map_of meta ''title'' of
                       None \<Rightarrow> query_result.title r = ''N/A''
                     | Some x \<Rightarrow> query_result.title r = x)
                  \<and> (case map_of meta ''year'' of
                       None \<Rightarrow> query_result.year r = ''N/A''
                     | Some x \<Rightarrow> query_result.year r = x)
                  \<and> (case map_of meta ''genres_clean'' of
                       None \<Rightarrow> query_result.genres r = ''N/A''
                     | Some x \<Rightarrow> query_result.genres r = x)
                  \<and> (case map_of meta ''tags'' of
                       None \<Rightarrow> query_result.tags r = []
                     | Some x \<Rightarrow> query_result.tags r = x))"
proof -
  from recommend_Inr [OF assms] obtain v vs
    where enc: "encode [q] = v # vs"
      and rs: "rs = map recommendation (nearest metric s v n_results)"
    by blast
  have "\<And>hit. let meta = fst hit; r = recommendation hit
         in (case map_of meta ''title'' of
               None \<Rightarrow> query_result.title r = ''N/A''
             | Some x \<Rightarrow> query_result.title r = x)
          \<and> (case map_of meta ''year'' of
               None \<Rightarrow> query_result.year r = ''N/A''
             | Some x \<Rightarrow> query_result.year r = x)
          \<and> (case map_of meta ''genres_clean'' of
               None \<Rightarrow> query_result.genres r = ''N/A''
             | Some x \<Rightarrow> query_result.genres r = x)
          \<and> (case map_of meta ''tags'' of
               None \<Rightarrow> query_result.tags r = []
             | Some x \<Rightarrow> query_result.tags r = x)"
    by (simp add: recommendation_def dict_get_def Let_def split: option.split)
  with enc rs show ?thesis
    by (intro exI [of _ v] exI [of _ vs]) (simp add: Let_def)
qed

theorem recommend_metadata_fallbacks_witness:
  "recommend (map (\<lambda>t. [1])) (\<lambda>a b. 1 / 2)
     [(''1'', \<lparr>vector = [1], document = ''heat'', metadata = [(''title'', ''Heat'')]\<rparr>)]
     ''heist'' 1
   = (Inr [recommendation ([(''title'', ''Heat'')], 1 / 2)],
      [(''1'', \<lparr>vector = [1], document = ''heat'', metadata = [(''title'', ''Heat'')]\<rparr>)])
   \<and> query_result.title (recommendation ([(''title'', ''Heat'')], 1 / 2)) = ''Heat''
   \<and> query_result.year (recommendation ([(''title'', ''Heat'')], 1 / 2)) = ''N/A''
   \<and> query_result.genres (recommendation ([(''title'', ''Heat'')], 1 / 2)) = ''N/A''
   \<and> query_result.tags (recommendation ([(''title'', ''Heat'')], 1 / 2)) = []"
proof -
  let ?s = "[(''1'', \<lparr>vector = [1], document = ''heat'', metadata = [(''title'', ''Heat'')]\<rparr>)]"
  let ?r = "recommendation ([(''title'', ''Heat'')], 1 / 2)"
  have near: "nearest (\<lambda>a b. 1 / 2) ?s [1] 1 = [([(''title'', ''Heat'')], 1 / 2)]"
    by (simp add: nearest_def)
  have r: "recommend (map (\<lambda>t. [1])) (\<lambda>a b. 1 / 2) ?s ''heist'' 1 = (Inr [?r], ?s)"
    by (simp add: recommend_encoded near)
  from recommend_metadata_fallbacks [OF r] near
  have "query_result.title ?r = ''Heat'' \<and> query_result.year ?r = ''N/A''
        \<and> query_result.genres ?r = ''N/A'' \<and> query_result.tags ?r = []"
    by (simp add: Let_def)
  with r show ?thesis by simp
qed






text \<open>
  C2: the docstring of \<open>recommend\<close> promises a score between 0 and 1 and the raw
  distance of the store. Evaluated on a store whose two entries lie at the cosine
  distances \<open>2 ^ -20\<close> and \<open>1.5\<close> from the query, \<open>recommend\<close> returns the score
  \<open>-0.5\<close> for the second hit, outside \<open>[0, 1]\<close>, and the distance field \<open>0.0\<close> for
  the first hit, which is the raw distance rounded to four decimals and not the raw
  distance \<open>2 ^ -20\<close>.
\<close>

theorem recommend_score_out_of_range:
  "fst (recommend (map (\<lambda>t. [1])) (\<lambda>a b. hd b)
          [(''1'', \<lparr>vector = [3 / 2], document = ''heat'', metadata = []\<rparr>),
           (''2'', \<lparr>vector = [1 / 1048576], document = ''ronin'', metadata = []\<rparr>)]
          ''heist'' 2)
     = Inr [\<lparr>title = ''N/A'', year = ''N/A'', genres = ''N/A'', tags = [],
              score = 1, distance = 0\<rparr>,
            \<lparr>title = ''N/A'', year = ''N/A'', genres = ''N/A'', tags = [],
              score = - (1 / 2), distance = 3 / 2\<rparr>]
   \<and> nearest (\<lambda>a b. hd b)
          [(''1'', \<lparr>vector = [3 / 2], document = ''heat'', metadata = []\<rparr>),
           (''2'', \<lparr>vector = [1 / 1048576], document = ''ronin'', metadata = []\<rparr>)]
          [1] 2
     = [([], 1 / 1048576), ([], 3 / 2)]"
proof -
  let ?s = "[(''1'', \<lparr>vector = [3 / 2], document = ''heat'', metadata = []\<rparr>),
             (''2'', \<lparr>vector = [1 / 1048576], document = ''ronin'', metadata = []\<rparr>)]"
  have near: "nearest (\<lambda>a b. hd b) ?s [1] 2 = [([], 1 / 1048576), ([], 3 / 2)]"
    by (simp add: nearest_def numeral_2_eq_2)
  then show ?thesis
    by (simp add: recommend_encoded recommendation_def Let_def dict_get_def
        score_3_2 distance_3_2 distance_2m20 score_2m20)
qed


text \<open>
  C3: for every query text and every \<open>n_results \<ge> 1\<close>, given an embedder that returns
  a vector for the query, \<open>recommend\<close> returns normally, with at most \<open>n_results\<close> results
  and at most \<open>count()\<close> results; the results are the hits of the Vector Store in the
  order the store returned them, nearest first, so both the raw distances and the
  \<open>distance\<close> fields are non-decreasing; on a store with no entries the result is the
  empty list.
\<close>

theorem recommend_bounded_sorted:
  assumes "1 \<le> n_results" and "encode [q] = v # vs"
  shows "\<exists>rs. recommend encode metric s q n_results = (Inr rs, s)
           \<and> int (length rs) \<le> n_results
           \<and> length rs \<le> count s
           \<and> rs = map recommendation (nearest metric s v n_results)
           \<and> sorted (map snd (nearest metric s v n_results))
           \<and> sorted (map distance rs)
           \<and> (count s = 0 \<longrightarrow> rs = [])"
proof -
  let ?hits = "nearest metric s v n_results"
  have "sorted (map (\<lambda>h. py_round (snd h) 4) ?hits)"
    using sorted_nearest py_round_mono by (rule sorted_map_mono)
  then have "sorted (map distance (map recommendation ?hits))"
    by (simp add: comp_def)
  moreover have "int (length ?hits) \<le> n_results" "length ?hits \<le> count s"
    using assms(1) by (simp_all add: length_nearest)
  moreover have "count s = 0 \<longrightarrow> ?hits = []"
    by (simp add: nearest_def count_def)
  ultimately show ?thesis
    using recommend_encoded [of encode q v vs metric s n_results] assms(2) sorted_nearest
    by simp
qed

theorem recommend_bounded_sorted_witness:
  "(1 :: int) \<le> 5 \<and> map (\<lambda>t. [1 :: rat]) [''heist''] = [1] # []
   \<and> count [] = 0
   \<and> recommend (map (\<lambda>t. [1])) (\<lambda>a b. hd b) [] ''heist'' 5 = (Inr [], [])"
proof -
  have n: "(1 :: int) \<le> 5" by simp
  have e: "map (\<lambda>t. [1 :: rat]) [''heist''] = [1] # []" by simp
  have c: "count [] = 0" by (simp add: count_def)
  from recommend_bounded_sorted
         [where n_results = 5 and encode = "map (\<lambda>t. [1])" and q = "''heist''"
            and v = "[1]" and vs = "[]" and metric = "\<lambda>a b. hd b" and s = "[]"] n e c
  have "recommend (map (\<lambda>t. [1])) (\<lambda>a b. hd b) [] ''heist'' 5 = (Inr [], [])"
    by auto
  with n e c show ?thesis by blast
qed


section \<open>The Vector Store: rejected batches\<close>

text \<open>
  C7: \<open>upsert\<close> with input sequences (ids, vectors, documents, metadatas) of unequal
  lengths is rejected with a \<open>ValidationError\<close> and writes nothing: the store it leaves
  is the store it was given, so its \<open>count\<close> and the answer to every query are unchanged.
\<close>

theorem upsert_unequal_lengths_rejected:
  assumes "\<not> (length embeddings = length ids \<and> length documents = length ids
              \<and> length metas = length ids)"
  shows "upsert s ids embeddings documents metas = (Some ValidationError, s)
         \<and> count (snd (upsert s ids embeddings documents metas)) = count s
         \<and> query metric (snd (upsert s ids embeddings documents metas)) vs k
             = query metric s vs k"
  using assms by (auto simp add: upsert_def)

theorem upsert_unequal_lengths_rejected_witness:
  "\<not> (length [[1 :: rat]] = length [''1'', ''2''] \<and> length [''a'', ''b''] = length [''1'', ''2'']
        \<and> length [[(''title'', ''A'')], []] = length [''1'', ''2''])
   \<and> upsert [(''1'', \<lparr>vector = [0], document = ''old'', metadata = []\<rparr>)]
        [''1'', ''2''] [[1]] [''a'', ''b''] [[(''title'', ''A'')], []]
     = (Some ValidationError, [(''1'', \<lparr>vector = [0], document = ''old'', metadata = []\<rparr>)])"
proof -
  have h: "\<not> (length [[1 :: rat]] = length [''1'', ''2'']
               \<and> length [''a'', ''b''] = length [''1'', ''2'']
               \<and> length [[(''title'', ''A'')], []] = length [''1'', ''2''])"
    by simp
  from upsert_unequal_lengths_rejected [OF h] h show ?thesis by blast
qed


section \<open>Indexing: results\<close>

lemma index_skip:
  assumes "0 < count s"
  shows "index encode df False s = (None, s)"
  using assms by (simp add: index_def)

lemma index_twice:
  "snd (index encode df False (snd (index encode df False s))) = snd (index encode df False s)"
proof (cases "0 < count s")
  case True
  then show ?thesis by (simp add: index_skip)
next
  case False
  then have s: "s = []" by (simp add: count_def)
  define s1 where "s1 = snd (index encode df False s)"
  show ?thesis
  proof (cases "0 < count s1")
    case True
    then show ?thesis unfolding s1_def [symmetric] by (simp add: index_skip)
  next
    case False
    then have "s1 = s" by (simp add: count_def s)
    then show ?thesis unfolding s1_def [symmetric] by (simp add: s1_def)
  qed
qed



















lemma map_of_put: "map_of (put i e s) = (map_of s)(i \<mapsto> e)"
  by (induction s) (auto simp add: fun_eq_iff)

text \<open>\<open>put\<close> keeps the ids of the store distinct.\<close>

lemma keys_put: "fst ` set (put i e s) = insert i (fst ` set s)"
proof -
  have "fst ` set (put i e s) = dom (map_of (put i e s))"
    by (simp only: dom_map_of_conv_image_fst)
  also have "\<dots> = insert i (dom (map_of s))"
    by (simp add: map_of_put)
  finally show ?thesis by (simp only: dom_map_of_conv_image_fst)
qed

lemma distinct_put: "distinct (map fst s) \<Longrightarrow> distinct (map fst (put i e s))"
  by (induction s) (auto simp add: keys_put)


























text \<open>
  C4: indexing is idempotent under the skip-if-present policy. If \<open>count()\<close> is greater
  than 0 and \<open>force\<close> is not set, \<open>index\<close> returns without writing and the store is
  unchanged. Hence running \<open>index\<close> twice without \<open>force\<close>, from any store, leaves the
  same store as running it once: the same \<open>count()\<close> and the same stored vectors.
\<close>

theorem index_skip_idempotent:
  "(0 < count s \<longrightarrow> index encode df False s = (None, s))
   \<and> snd (index encode df False (snd (index encode df False s))) = snd (index encode df False s)
   \<and> count (snd (index encode df False (snd (index encode df False s))))
       = count (snd (index encode df False s))
   \<and> map (\<lambda>(i, e). (i, vector e)) (snd (index encode df False (snd (index encode df False s))))
       = map (\<lambda>(i, e). (i, vector e)) (snd (index encode df False s))"
  by (simp add: index_skip index_twice)

theorem index_skip_idempotent_witness:
  "0 < count [(''1'', \<lparr>vector = [1], document = ''heat'', metadata = []\<rparr>)]
   \<and> index (map (\<lambda>t. [2]))
        [\<lparr>movieId = 1, title = Some ''Heat (1995)'', clean_title = Some ''Heat'',
          year = Some ''1995'', genres_clean = Some ''Crime'', tags = None,
          soup = Some ''Heat Crime''\<rparr>]
        False [(''1'', \<lparr>vector = [1], document = ''heat'', metadata = []\<rparr>)]
     = (None, [(''1'', \<lparr>vector = [1], document = ''heat'', metadata = []\<rparr>)])"
proof -
  have c: "0 < count [(''1'', \<lparr>vector = [1], document = ''heat'', metadata = []\<rparr>)]"
    by (simp add: count_def)
  with index_skip_idempotent show ?thesis by blast
qed









section \<open>Title helpers: results\<close>

lemma paren_classes [simp]:
  "\<not> isdigit CHR ''(''" "\<not> isspace CHR ''(''" "\<not> isspace CHR '')''" "isspace (CHR 0x0A)"
  by (simp_all add: isdigit_def isspace_def)

lemma ws_then_end_eq:
  "ws_then_end r = (if list_all isspace r then Some (length r) else None)"
proof (induction r)
  case Nil
  then show ?case by simp
next
  case (Cons c cs)
  show ?case
  proof (cases "isspace c")
    case True
    then show ?thesis using Cons by (auto simp add: at_end_def)
  next
    case False
    then have "c \<noteq> CHR 0x0A" by auto
    with False show ?thesis by (simp add: at_end_def)
  qed
qed

lemma match_year_suffix:
  assumes "isdigit d1" "isdigit d2" "isdigit d3" "isdigit d4" "list_all isspace ws"
  shows "match_year (CHR ''('' # d1 # d2 # d3 # d4 # CHR '')'' # ws)
           = Some ([d1, d2, d3, d4], 6 + length ws)"
  using assms by (simp add: ws_then_end_eq)

lemma match_year_SomeD:
  assumes "match_year s = Some (g, n)"
  shows "\<exists>d1 d2 d3 d4 ws.
           s = CHR ''('' # d1 # d2 # d3 # d4 # CHR '')'' # ws
           \<and> isdigit d1 \<and> isdigit d2 \<and> isdigit d3 \<and> isdigit d4 \<and> list_all isspace ws
           \<and> g = [d1, d2, d3, d4] \<and> n = length s"
  using assms
  by (cases s rule: match_year.cases)
     (auto simp add: ws_then_end_eq split: if_splits option.splits)

lemma no_match_before:
  assumes "isdigit d1" "isdigit d2" "isdigit d3" "isdigit d4" "list_all isspace ws"
    and "pre \<noteq> []"
  shows "match_year (pre @ CHR ''('' # d1 # d2 # d3 # d4 # CHR '')'' # ws) = None"
proof (rule ccontr)
  let ?u = "CHR ''('' # d1 # d2 # d3 # d4 # CHR '')'' # ws"
  assume "match_year (pre @ ?u) \<noteq> None"
  then obtain g n where "match_year (pre @ ?u) = Some (g, n)" by auto
  from match_year_SomeD [OF this] obtain e1 e2 e3 e4 ws'
    where eq: "pre @ ?u = CHR ''('' # e1 # e2 # e3 # e4 # CHR '')'' # ws'"
      and e: "isdigit e1" "isdigit e2" "isdigit e3" "isdigit e4"
      and w: "list_all isspace ws'"
    by blast
  from eq assms(6) obtain p1 where 1: "pre = CHR ''('' # p1" "p1 @ ?u = e1 # e2 # e3 # e4 # CHR '')'' # ws'"
    by (cases pre) auto
  from 1(2) e(1) obtain p2 where 2: "p1 = e1 # p2" "p2 @ ?u = e2 # e3 # e4 # CHR '')'' # ws'"
    by (cases p1) auto
  from 2(2) e(2) obtain p3 where 3: "p2 = e2 # p3" "p3 @ ?u = e3 # e4 # CHR '')'' # ws'"
    by (cases p2) auto
  from 3(2) e(3) obtain p4 where 4: "p3 = e3 # p4" "p4 @ ?u = e4 # CHR '')'' # ws'"
    by (cases p3) auto
  from 4(2) e(4) obtain p5 where 5: "p4 = e4 # p5" "p5 @ ?u = CHR '')'' # ws'"
    by (cases p4) auto
  from 5(2) obtain p6 where 6: "p5 = CHR '')'' # p6" "p6 @ ?u = ws'"
    by (cases p5) auto
  from 6(2) w have "isspace CHR ''(''" by auto
  then show False by simp
qed


lemma digits4:
  assumes "length ds = 4"
  obtains d1 d2 d3 d4 where "ds = [d1, d2, d3, d4]"
proof -
  from assms obtain d1 r1 where 1: "ds = d1 # r1" "length r1 = 3" by (cases ds) auto
  from 1(2) obtain d2 r2 where 2: "r1 = d2 # r2" "length r2 = 2" by (cases r1) auto
  from 2(2) obtain d3 r3 where 3: "r2 = d3 # r3" "length r3 = 1" by (cases r2) auto
  from 3(2) obtain d4 where 4: "r3 = [d4]" by (cases r3) auto
  from 1 2 3 4 that show thesis by simp
qed

lemma re_sub_skip: "length xs \<le> k \<Longrightarrow> re_sub k xs = []"
proof (induction xs arbitrary: k)
  case Nil
  then show ?case by simp
next
  case (Cons x xs)
  then obtain j where "k = Suc j" by (cases k) auto
  with Cons show ?case by simp
qed

lemma year_suffix_found:
  assumes "year_suffix t pre ds ws"
  shows "re_search t = Some ds" and "re_sub 0 t = pre"
proof -
  from assms have t: "t = pre @ CHR ''('' # ds @ CHR '')'' # ws"
    and l: "length ds = 4" and d: "list_all isdigit ds" and w: "list_all isspace ws"
    by (simp_all add: year_suffix_def)
  from l obtain d1 d2 d3 d4 where ds: "ds = [d1, d2, d3, d4]" by (rule digits4)
  from d have dg: "isdigit d1" "isdigit d2" "isdigit d3" "isdigit d4" by (simp_all add: ds)
  let ?u = "CHR ''('' # d1 # d2 # d3 # d4 # CHR '')'' # ws"
  have m: "match_year ?u = Some (ds, 6 + length ws)"
    unfolding ds using dg w by (rule match_year_suffix)
  have "re_search (pre @ ?u) = Some ds \<and> re_sub 0 (pre @ ?u) = pre"
  proof (induction pre)
    case Nil
    have "re_sub (5 + length ws) (d1 # d2 # d3 # d4 # CHR '')'' # ws) = []"
      by (rule re_sub_skip) simp
    then show ?case using m by simp
  next
    case (Cons c pre)
    have "match_year ((c # pre) @ ?u) = None"
      using dg w by (rule no_match_before) simp
    then have n: "match_year (c # pre @ ?u) = None" by simp
    show ?case using Cons by (simp add: n del: match_year.simps)
  qed
  then show "re_search t = Some ds" and "re_sub 0 t = pre"
    by (simp_all add: t ds)
qed

lemma match_year_is_suffix:
  assumes "match_year s = Some (g, n)"
  shows "\<exists>ws. year_suffix (pre @ s) pre g ws"
proof -
  from match_year_SomeD [OF assms] obtain d1 d2 d3 d4 ws
    where "s = CHR ''('' # d1 # d2 # d3 # d4 # CHR '')'' # ws"
      and "isdigit d1" "isdigit d2" "isdigit d3" "isdigit d4" "list_all isspace ws"
      and "g = [d1, d2, d3, d4]"
    by blast
  then have "year_suffix (pre @ s) pre g ws" by (simp add: year_suffix_def)
  then show ?thesis ..
qed

lemma no_match_anywhere:
  assumes "\<forall>i. match_year (drop i t) = None"
  shows "re_search t = None" and "re_sub 0 t = t"
proof -
  have "re_search t = None \<and> re_sub 0 t = t"
    using assms
  proof (induction t)
    case Nil
    then show ?case by simp
  next
    case (Cons c cs)
    from Cons.prems have "match_year (drop 0 (c # cs)) = None" by blast
    then have n: "match_year (c # cs) = None" by simp
    have "\<forall>i. match_year (drop i cs) = None"
    proof
      fix i
      from Cons.prems have "match_year (drop (Suc i) (c # cs)) = None" by blast
      then show "match_year (drop i cs) = None" by simp
    qed
    with Cons.IH show ?case by (simp add: n del: match_year.simps)
  qed
  then show "re_search t = None" and "re_sub 0 t = t" by simp_all
qed

lemma no_year_suffix:
  assumes "\<forall>pre ds ws. \<not> year_suffix t pre ds ws"
  shows "\<forall>i. match_year (drop i t) = None"
proof
  fix i
  show "match_year (drop i t) = None"
  proof (rule ccontr)
    assume "match_year (drop i t) \<noteq> None"
    then obtain g n where "match_year (drop i t) = Some (g, n)" by auto
    from match_year_is_suffix [OF this, of "take i t"]
    obtain ws where "year_suffix t (take i t) g ws" by auto
    with assms show False by blast
  qed
qed

lemma space_classes [simp]:
  "isspace CHR '' ''" "\<not> isspace CHR ''t''" "isdigit CHR ''1''" "isdigit CHR ''9''"
  "isdigit CHR ''5''"
  by (simp_all add: isspace_def isdigit_def)


text \<open>
  C10: \<open>clean_title\<close> and \<open>extract_year\<close> agree on every title. If the title ends
  with a parenthesized 4-digit year, optionally followed by whitespace, \<open>extract_year\<close>
  returns exactly those four digits and \<open>clean_title\<close> returns the part of the title
  before that suffix, stripped of leading and trailing whitespace. If the title has no such
  suffix, \<open>extract_year\<close> returns \<open>Unknown\<close> and \<open>clean_title\<close> returns the title
  stripped of leading and trailing whitespace. (Titles range over the strings of code
  points below 256.)
\<close>

theorem clean_title_extract_year:
  "(year_suffix t pre ds ws \<longrightarrow> extract_year t = ds \<and> clean_title_of t = strip pre)
   \<and> ((\<forall>pre ds ws. \<not> year_suffix t pre ds ws)
        \<longrightarrow> extract_year t = ''Unknown'' \<and> clean_title_of t = strip t)"
proof (intro conjI impI)
  assume y: "year_suffix t pre ds ws"
  show "extract_year t = ds"
    by (simp add: extract_year_def year_suffix_found(1) [OF y])
  show "clean_title_of t = strip pre"
    by (simp add: clean_title_of_def year_suffix_found(2) [OF y])
next
  assume n: "\<forall>pre ds ws. \<not> year_suffix t pre ds ws"
  note m = no_match_anywhere [OF no_year_suffix [OF n]]
  show "extract_year t = ''Unknown''" by (simp add: extract_year_def m(1))
  show "clean_title_of t = strip t" by (simp add: clean_title_of_def m(2))
qed

theorem clean_title_extract_year_witness:
  "year_suffix ''Heat (1995) '' ''Heat '' ''1995'' '' ''
   \<and> extract_year ''Heat (1995) '' = ''1995''
   \<and> clean_title_of ''Heat (1995) '' = ''Heat''
   \<and> (\<forall>pre ds ws. \<not> year_suffix ''Heat'' pre ds ws)
   \<and> extract_year ''Heat'' = ''Unknown''
   \<and> clean_title_of ''Heat'' = ''Heat''"
proof -
  have y: "year_suffix ''Heat (1995) '' ''Heat '' ''1995'' '' ''"
    by (simp add: year_suffix_def)
  have n: "\<forall>pre ds ws. \<not> year_suffix ''Heat'' pre ds ws"
  proof (intro allI notI)
    fix pre ds ws
    assume "year_suffix ''Heat'' pre ds ws"
    then have "re_search ''Heat'' = Some ds" by (rule year_suffix_found(1))
    then show False by simp
  qed
  have s: "strip ''Heat '' = ''Heat''" "strip ''Heat'' = ''Heat''"
    by (simp_all add: strip_def isspace_def)
  from clean_title_extract_year [of "''Heat (1995) ''" "''Heat ''" "''1995''" "'' ''"] y
  have "extract_year ''Heat (1995) '' = ''1995'' \<and> clean_title_of ''Heat (1995) '' = strip ''Heat ''"
    by blast
  moreover
  from clean_title_extract_year [of "''Heat''"] n
  have "extract_year ''Heat'' = ''Unknown'' \<and> clean_title_of ''Heat'' = strip ''Heat''"
    by blast
  ultimately show ?thesis using y n s by simp
qed

end
